theory Spec2Isabelle
  imports Complex_Main "HOL-Library.AList"
begin

section \<open>Python values shared by the models\<close>

text \<open>
  Python strings are sequences of code points and \<open>len\<close> counts code points, so a
  string is modelled as a list of code points (natural numbers). The two separators the
  code splits on are the space (32) and the line feed (10).
\<close>

type_synonym py_char = nat
type_synonym py_str = "py_char list"

datatype py_error = IndexError

definition SPACE :: py_char where
  "SPACE = 32"

definition NEWLINE :: py_char where
  "NEWLINE = 10"

section \<open>views/chat.py: the message viewport\<close>

subsection \<open>Start index (render\_chat, lines 188--218)\<close>

text \<open>
  The loop \<open>for i in range(target_index - 1, -1, -1)\<close> of \<open>render_chat\<close>. The first
  numeric argument counts the indices still to visit: at \<open>Suc i\<close> the loop body runs
  for index \<open>i\<close>. \<open>cur\<close> is \<open>current_height\<close>, \<open>start\<close> is \<open>start_index\<close>;
  the \<open>else\<close> branch is the \<open>break\<close>.
\<close>

fun walk_back :: "int list \<Rightarrow> int \<Rightarrow> nat \<Rightarrow> int \<Rightarrow> nat \<Rightarrow> nat" where
  "walk_back hs H 0 cur start = start"
| "walk_back hs H (Suc i) cur start =
     (if cur + hs ! i \<le> H then walk_back hs H i (cur + hs ! i) i else start)"

text \<open>
  The computation of \<open>start_index\<close> from \<open>message_heights\<close>, \<open>content_height\<close> and
  \<open>selected_index\<close>. The selected index is a natural number: the key handlers keep it
  between 0 and \<open>len(messages) - 1\<close>. Reading \<open>message_heights[target_index]\<close> past the
  end raises \<open>IndexError\<close>; that read happens only when scrolling is needed.
\<close>

definition compute_start_index :: "int list \<Rightarrow> int \<Rightarrow> nat \<Rightarrow> py_error + nat" where
  "compute_start_index message_heights content_height selected_index =
     (if sum_list message_heights \<le> content_height then Inr 0
      else if length message_heights \<le> selected_index then Inl IndexError
      else
        let lines_before_target = sum_list (take selected_index message_heights);
            target_height = message_heights ! selected_index
        in if lines_before_target + target_height > content_height
           then Inr selected_index
           else Inr (walk_back message_heights content_height selected_index
                       target_height selected_index))"

subsection \<open>Drawing loop (render\_chat, lines 220--278)\<close>

text \<open>
  The loop \<open>for i in range(start_index, len(messages))\<close>: the list argument holds the
  heights from the current index on, \<open>y\<close> is \<open>y_pos\<close>. Drawing one message advances
  \<open>y_pos\<close> by exactly its height (header line, media line, text lines, separator), and
  the result is \<open>drawn_messages\<close>.
\<close>

fun draw_loop :: "int \<Rightarrow> int list \<Rightarrow> int \<Rightarrow> nat" where
  "draw_loop height [] y = 0"
| "draw_loop height (h # hs) y =
     (if y + h > height - 2 then 0 else Suc (draw_loop height hs (y + h)))"

text \<open>
  The layout \<open>render_chat\<close> arrives at for a terminal of \<open>height\<close> rows:
  \<open>(start_index, drawn_messages)\<close>, with \<open>content_height = height - 4\<close> and
  \<open>y_pos\<close> starting at 2.
\<close>

definition chat_layout :: "int \<Rightarrow> int list \<Rightarrow> nat \<Rightarrow> py_error + (nat \<times> nat)" where
  "chat_layout height message_heights selected_index =
     (let content_height = height - 4
      in case compute_start_index message_heights content_height selected_index of
           Inl e \<Rightarrow> Inl e
         | Inr start_index \<Rightarrow>
             Inr (start_index, draw_loop height (drop start_index message_heights) 2))"

subsection \<open>The viewport algorithm as the specification words it\<close>

text \<open>
  Walking backward from \<open>S - 1\<close>: the list holds the heights of the items above the
  selected one, nearest first; the result is the number of items absorbed before the
  first one that would overflow.
\<close>

fun absorbed :: "int list \<Rightarrow> int \<Rightarrow> int \<Rightarrow> nat" where
  "absorbed [] H cum = 0"
| "absorbed (h # rest) H cum =
     (if cum + h \<le> H then Suc (absorbed rest H (cum + h)) else 0)"

definition viewport_start_spec :: "int list \<Rightarrow> int \<Rightarrow> nat \<Rightarrow> nat" where
  "viewport_start_spec heights H S =
     (if sum_list heights \<le> H then 0
      else
        let heightBefore = sum_list (take S heights);
            heightOfS = heights ! S
        in if heightBefore + heightOfS > H then S
           else S - absorbed (rev (take S heights)) H heightOfS)"

section \<open>views/dialogs.py: the conversation viewport\<close>

text \<open>
  \<open>render_dialogs\<close>, lines 99--111: \<open>visible_lines = height - 3\<close>, the start index, and
  the indices of the rows drawn by \<open>for i in range(min(visible_lines, len(dialogs)))\<close>
  with its \<open>break\<close> at the end of the list. Python's \<open>//\<close> is floor division, as
  \<open>div\<close> on \<open>int\<close> is.
\<close>

definition dialogs_start_index :: "int \<Rightarrow> nat \<Rightarrow> int \<Rightarrow> int" where
  "dialogs_start_index height n selected_index =
     (let visible_lines = height - 3
      in max 0 (min (selected_index - visible_lines div 2) (int n - visible_lines)))"

definition dialogs_drawn :: "int \<Rightarrow> nat \<Rightarrow> int \<Rightarrow> int list" where
  "dialogs_drawn height n selected_index =
     (let visible_lines = height - 3;
          start_index = dialogs_start_index height n selected_index
      in takeWhile (\<lambda>index. index < int n)
           (map (\<lambda>i. start_index + int i) [0 ..< nat (min visible_lines (int n))]))"

section \<open>views/chat.py: message text and message heights\<close>

text \<open>
  What \<open>format_message_text\<close> reads of a message: \<open>message.message\<close> (a string or
  \<open>None\<close>) and \<open>message.media\<close> (\<open>None\<close>, or an object of which only the class
  name is used).
\<close>

record message =
  message_body :: "py_str option"
  media :: "py_str option"

text \<open>
  \<open>s.split(sep)\<close> for a separator of one character: the list is never empty, and two
  adjacent separators give an empty piece.
\<close>

fun split_where :: "('a \<Rightarrow> bool) \<Rightarrow> 'a list \<Rightarrow> 'a list list" where
  "split_where P [] = [[]]"
| "split_where P (c # cs) =
     (if P c then [] # split_where P cs
      else (case split_where P cs of
              [] \<Rightarrow> [[c]]
            | w # ws \<Rightarrow> (c # w) # ws))"

definition py_split :: "py_char \<Rightarrow> py_str \<Rightarrow> py_str list" where
  "py_split sep s = split_where (\<lambda>c. c = sep) s"

text \<open>
  The inner loop \<open>for word in line.split(" ")\<close> with its trailing
  \<open>if current_line: lines.append(current_line)\<close>; the result is the lines appended,
  in order.
\<close>

fun pack_words :: "int \<Rightarrow> py_str list \<Rightarrow> py_str \<Rightarrow> py_str list" where
  "pack_words width [] current_line = (if current_line \<noteq> [] then [current_line] else [])"
| "pack_words width (word # ws) current_line =
     (if int (length current_line) + int (length word) + 1 \<le> width
      then pack_words width ws
             (if current_line \<noteq> [] then current_line @ SPACE # word else word)
      else current_line # pack_words width ws word)"

definition wrap_line :: "int \<Rightarrow> py_str \<Rightarrow> py_str list" where
  "wrap_line width line =
     (if int (length line) \<le> width then [line]
      else pack_words width (py_split SPACE line) [])"

text \<open>
  The placeholder for a message without text and without media, as code points
  (18 of them): an opening bracket, two Cyrillic words separated by a space, a closing
  bracket.
\<close>

definition empty_message_placeholder :: py_str where
  "empty_message_placeholder =
     [91, 1055, 1091, 1089, 1090, 1086, 1077, 32, 1089, 1086, 1086, 1073, 1097, 1077,
      1085, 1080, 1077, 93]"

definition displayed_text :: "message \<Rightarrow> py_str" where
  "displayed_text msg =
     (let text0 = (case message_body msg of None \<Rightarrow> [] | Some t \<Rightarrow> t);
          text1 = (case media msg of
                     Some media_type \<Rightarrow> if text0 = [] then 91 # media_type @ [93] else text0
                   | None \<Rightarrow> text0)
      in if text1 = [] then empty_message_placeholder else text1)"

definition format_message_text :: "message \<Rightarrow> int \<Rightarrow> py_str list" where
  "format_message_text msg width =
     concat (map (wrap_line width) (py_split NEWLINE (displayed_text msg)))"

text \<open>
  The height \<open>render_chat\<close> gives a message (lines 170--186): the sender line, the text
  lines wrapped at \<open>width - 8\<close>, one line for media when a media handler is present,
  and the separator.
\<close>

definition message_height :: "bool \<Rightarrow> int \<Rightarrow> message \<Rightarrow> int" where
  "message_height media_handler width msg =
     1 + int (length (format_message_text msg (width - 8)))
       + (if media_handler \<and> media msg \<noteq> None then 1 else 0) + 1"

definition render_chat :: "int \<Rightarrow> int \<Rightarrow> bool \<Rightarrow> message list \<Rightarrow> nat \<Rightarrow> py_error + (nat \<times> nat)" where
  "render_chat height width media_handler messages selected_index =
     (if messages = [] then Inr (0, 0)
      else chat_layout height (map (message_height media_handler width) messages)
             selected_index)"

subsection \<open>Words of a text, for the reconstruction property\<close>

text \<open>
  The characters Python's \<open>str.split()\<close> treats as whitespace, the words of a string
  (maximal runs without whitespace), and \<open>" ".join(lines)\<close>.
\<close>

definition is_space :: "py_char \<Rightarrow> bool" where
  "is_space c = (c \<in> set [9, 10, 11, 12, 13, 28, 29, 30, 31, 32, 133, 160, 5760,
                           8192, 8193, 8194, 8195, 8196, 8197, 8198, 8199, 8200, 8201, 8202,
                           8232, 8233, 8239, 8287, 12288])"

definition py_words :: "py_str \<Rightarrow> py_str list" where
  "py_words s = filter (\<lambda>w. w \<noteq> []) (split_where is_space s)"

fun join_with :: "'a \<Rightarrow> 'a list list \<Rightarrow> 'a list" where
  "join_with sep [] = []"
| "join_with sep [l] = l"
| "join_with sep (l # l' # ls) = l @ sep # join_with sep (l' # ls)"

definition space_separated_words :: "py_str \<Rightarrow> py_str list" where
  "space_separated_words text = concat (map (py_split SPACE) (py_split NEWLINE text))"

section \<open>services/cache.py: the cache manager\<close>

text \<open>
  Time is \<open>time.time()\<close>, seconds as a real number; every operation that reads the
  clock takes \<open>now\<close> as an argument. The dialog slot is the dictionary
  \<open>dialogs_cache\<close>; \<open>messages_cache\<close> is a dictionary from dialog id to an entry, kept
  as an association list in insertion order.
\<close>

record 'd dialogs_slot =
  dc_data :: "'d list option"
  dc_timestamp :: real
  dc_only_unread :: bool

record 'm messages_entry =
  me_data :: "'m list option"
  me_timestamp :: real

record ('d, 'm) cache_manager =
  max_age_minutes :: int
  dialogs_cache :: "'d dialogs_slot"
  messages_cache :: "(int \<times> 'm messages_entry) list"

definition get_dialogs :: "('d, 'm) cache_manager \<Rightarrow> real \<Rightarrow> bool \<Rightarrow> 'd list option" where
  "get_dialogs c now only_unread =
     (let cache_valid =
            (dc_data (dialogs_cache c) \<noteq> None \<and>
             dc_only_unread (dialogs_cache c) = only_unread \<and>
             now - dc_timestamp (dialogs_cache c) < real_of_int (max_age_minutes c * 60))
      in if cache_valid then dc_data (dialogs_cache c) else None)"

definition store_dialogs ::
  "('d, 'm) cache_manager \<Rightarrow> real \<Rightarrow> 'd list \<Rightarrow> bool \<Rightarrow> ('d, 'm) cache_manager" where
  "store_dialogs c now dialogs only_unread =
     c\<lparr>dialogs_cache :=
         \<lparr>dc_data = Some dialogs, dc_timestamp = now, dc_only_unread = only_unread\<rparr>\<rparr>"

definition get_messages :: "('d, 'm) cache_manager \<Rightarrow> real \<Rightarrow> int \<Rightarrow> 'm list option" where
  "get_messages c now dialog_id =
     (case map_of (messages_cache c) dialog_id of
        Some cache_entry \<Rightarrow>
          if now - me_timestamp cache_entry < real_of_int (max_age_minutes c * 60)
          then me_data cache_entry else None
      | None \<Rightarrow> None)"

definition store_messages ::
  "('d, 'm) cache_manager \<Rightarrow> real \<Rightarrow> int \<Rightarrow> 'm list \<Rightarrow> ('d, 'm) cache_manager" where
  "store_messages c now dialog_id messages =
     c\<lparr>messages_cache :=
         AList.update dialog_id \<lparr>me_data = Some messages, me_timestamp = now\<rparr>
           (messages_cache c)\<rparr>"

definition invalidate_dialog_cache :: "('d, 'm) cache_manager \<Rightarrow> ('d, 'm) cache_manager" where
  "invalidate_dialog_cache c = c\<lparr>dialogs_cache := (dialogs_cache c)\<lparr>dc_data := None\<rparr>\<rparr>"

definition invalidate_messages_cache ::
  "('d, 'm) cache_manager \<Rightarrow> int option \<Rightarrow> ('d, 'm) cache_manager" where
  "invalidate_messages_cache c dialog_id =
     (case dialog_id of
        None \<Rightarrow> c\<lparr>messages_cache := []\<rparr>
      | Some k \<Rightarrow>
          if map_of (messages_cache c) k \<noteq> None
          then c\<lparr>messages_cache := AList.delete k (messages_cache c)\<rparr>
          else c)"

subsection \<open>Persisted metadata\<close>

text \<open>
  The two JSON files: \<open>dialogs_cache.json\<close> holds a timestamp and the filter flag,
  \<open>messages_cache.json\<close> maps a dialog id to a timestamp. \<open>_load_cache\<close> reads every
  field with a default, so a field may be missing; a file may not exist. The keys of the
  second file are taken as already parsed by \<open>int\<close>.
\<close>

record dialogs_file =
  df_timestamp :: "real option"
  df_only_unread :: "bool option"

type_synonym messages_file = "(int \<times> real option) list"

definition save_cache :: "('d, 'm) cache_manager \<Rightarrow> dialogs_file \<times> messages_file" where
  "save_cache c =
     (\<lparr>df_timestamp = Some (dc_timestamp (dialogs_cache c)),
       df_only_unread = Some (dc_only_unread (dialogs_cache c))\<rparr>,
      map (\<lambda>(dialog_id, entry). (dialog_id, Some (me_timestamp entry))) (messages_cache c))"

definition load_cache ::
  "('d, 'm) cache_manager \<Rightarrow> dialogs_file option \<Rightarrow> messages_file option \<Rightarrow>
   ('d, 'm) cache_manager" where
  "load_cache c dialogs_json messages_json =
     (let c1 = (case dialogs_json of
                  None \<Rightarrow> c
                | Some cache_data \<Rightarrow>
                    c\<lparr>dialogs_cache := (dialogs_cache c)
                        \<lparr>dc_timestamp :=
                           (case df_timestamp cache_data of None \<Rightarrow> 0 | Some t \<Rightarrow> t),
                         dc_only_unread :=
                           (case df_only_unread cache_data of None \<Rightarrow> False | Some b \<Rightarrow> b)\<rparr>\<rparr>)
      in case messages_json of
           None \<Rightarrow> c1
         | Some cache_data \<Rightarrow>
             c1\<lparr>messages_cache :=
                  fold (\<lambda>(dialog_id, ts).
                          AList.update dialog_id
                            \<lparr>me_data = None,
                             me_timestamp = (case ts of None \<Rightarrow> 0 | Some t \<Rightarrow> t)\<rparr>)
                       cache_data (messages_cache c1)\<rparr>)"

text \<open>\<open>CacheManager.__init__\<close>: the empty cache, then \<open>_load_cache\<close>.\<close>

definition new_cache_manager ::
  "int \<Rightarrow> dialogs_file option \<Rightarrow> messages_file option \<Rightarrow> ('d, 'm) cache_manager" where
  "new_cache_manager max_age dialogs_json messages_json =
     load_cache
       \<lparr>max_age_minutes = max_age,
        dialogs_cache = \<lparr>dc_data = None, dc_timestamp = 0, dc_only_unread = False\<rparr>,
        messages_cache = []\<rparr>
       dialogs_json messages_json"

section \<open>cli.py: refreshing the message list\<close>

text \<open>
  The part of \<open>TelegramCLI\<close> that \<open>refresh_messages\<close> and the send-completion
  callbacks read and write. \<open>message_fetches\<close> records, in order, the dialog ids for
  which a \<open>client.get_messages\<close> task was created. The selected indices are natural
  numbers: the key handlers keep them inside the lists. Drawing is left out.
\<close>

record dialog =
  dialog_id :: int
  unread_count :: int

record 'm telegram_cli =
  dialog_list :: "dialog list"
  selected_messages :: "'m list"
  selected_dialog_index :: nat
  selected_message_index :: nat
  is_loading :: bool
  cli_cache :: "(dialog, 'm) cache_manager"
  message_fetches :: "int list"

definition refresh_messages :: "real \<Rightarrow> 'm telegram_cli \<Rightarrow> 'm telegram_cli" where
  "refresh_messages now s =
     (if dialog_list s = [] \<or> selected_dialog_index s \<ge> length (dialog_list s)
      then s\<lparr>selected_messages := []\<rparr>
      else
        let dialog = dialog_list s ! selected_dialog_index s;
            s1 = s\<lparr>is_loading := True\<rparr>
        in case get_messages (cli_cache s1) now (dialog_id dialog) of
             Some (m # ms) \<Rightarrow>
               s1\<lparr>selected_messages := m # ms,
                  is_loading := False,
                  selected_message_index :=
                    (if selected_message_index s1 \<ge> length (m # ms) then 0
                     else selected_message_index s1)\<rparr>
           | _ \<Rightarrow> s1\<lparr>message_fetches := message_fetches s1 @ [dialog_id dialog]\<rparr>)"

definition on_messages_loaded :: "real \<Rightarrow> int \<Rightarrow> 'm list \<Rightarrow> 'm telegram_cli \<Rightarrow> 'm telegram_cli" where
  "on_messages_loaded now loaded_id messages s =
     s\<lparr>selected_messages := messages,
       cli_cache := store_messages (cli_cache s) now loaded_id messages,
       selected_message_index :=
         (if selected_message_index s \<ge> length messages then 0
          else selected_message_index s),
       is_loading := False\<rparr>"

text \<open>
  The completion path of a sent reply. \<open>_on_reply_sent\<close> creates the
  \<open>mark_as_read\<close> task; when that succeeds \<open>_on_message_marked_read\<close> creates a task
  running \<open>refresh_messages\<close> and clears the loading flag, and the task then runs at
  time \<open>now\<close>; when it fails \<open>_on_load_error\<close> clears the loading flag.
\<close>

definition on_message_marked_read :: "real \<Rightarrow> 'm telegram_cli \<Rightarrow> 'm telegram_cli" where
  "on_message_marked_read now s = refresh_messages now (s\<lparr>is_loading := False\<rparr>)"

definition on_reply_sent :: "real \<Rightarrow> bool \<Rightarrow> 'm telegram_cli \<Rightarrow> 'm telegram_cli" where
  "on_reply_sent now marked_read s =
     (if marked_read then on_message_marked_read now s else s\<lparr>is_loading := False\<rparr>)"

section \<open>state.py: the state manager\<close>

datatype AppState = INIT | DIALOGS | CHAT | REPLY | SETTINGS | ERROR

text \<open>
  A registered callback receives the dictionary \<open>_state_data\<close> itself, so it may change
  it, and it may raise: a callback is a function from the data to the data it leaves
  and whether it raised. \<open>notifications\<close> records each invocation (the state and the
  position of the callback in that state's list); \<open>callback_errors\<close> counts the
  exceptions that \<open>_notify_state_change\<close> caught and logged. A state without an entry
  in \<open>_state_change_callbacks\<close> has the empty list.
\<close>

type_synonym 'v state_callback = "(string \<rightharpoonup> 'v) \<Rightarrow> (string \<rightharpoonup> 'v) \<times> bool"

record 'v state_manager =
  current_state :: AppState
  prev_state :: "AppState option"
  state_data :: "string \<rightharpoonup> 'v"
  state_change_callbacks :: "AppState \<Rightarrow> 'v state_callback list"
  notifications :: "(AppState \<times> nat) list"
  callback_errors :: nat

definition new_state_manager :: "'v state_manager" where
  "new_state_manager =
     \<lparr>current_state = INIT, prev_state = None, state_data = Map.empty,
      state_change_callbacks = (\<lambda>_. []), notifications = [], callback_errors = 0\<rparr>"

fun run_callbacks ::
  "AppState \<Rightarrow> nat \<Rightarrow> 'v state_callback list \<Rightarrow> 'v state_manager \<Rightarrow> 'v state_manager" where
  "run_callbacks state i [] s = s"
| "run_callbacks state i (callback # rest) s =
     (let (data', raised) = callback (state_data s)
      in run_callbacks state (Suc i) rest
           (s\<lparr>state_data := data',
              notifications := notifications s @ [(state, i)],
              callback_errors := callback_errors s + (if raised then 1 else 0)\<rparr>))"

definition notify_state_change :: "'v state_manager \<Rightarrow> 'v state_manager" where
  "notify_state_change s =
     (let state = current_state s
      in run_callbacks state 0 (state_change_callbacks s state) s)"

definition set_state ::
  "AppState \<Rightarrow> (string \<rightharpoonup> 'v) \<Rightarrow> 'v state_manager \<Rightarrow> 'v state_manager" where
  "set_state state new_data s =
     (if state \<noteq> current_state s
      then notify_state_change
             (s\<lparr>prev_state := Some (current_state s),
                current_state := state,
                state_data := state_data s ++ new_data\<rparr>)
      else s)"

text \<open>
  Members of a plain \<open>enum.Enum\<close> are all true, so \<open>if self._prev_state\<close> tests for
  \<open>None\<close> only.
\<close>

definition return_to_previous_state :: "'v state_manager \<Rightarrow> 'v state_manager" where
  "return_to_previous_state s =
     (case prev_state s of
        Some p \<Rightarrow> set_state p Map.empty s
      | None \<Rightarrow> s)"

definition register_state_change_callback ::
  "AppState \<Rightarrow> 'v state_callback \<Rightarrow> 'v state_manager \<Rightarrow> 'v state_manager" where
  "register_state_change_callback state callback s =
     s\<lparr>state_change_callbacks :=
         (state_change_callbacks s)(state := state_change_callbacks s state @ [callback])\<rparr>"

section \<open>utils/async\_loader.py: the task loader\<close>

text \<open>
  A task id is the string of a fresh UUID; \<open>create_task\<close> takes it as an argument.
  \<open>create_task\<close> hands the coroutine \<open>_task_wrapper(...)\<close> to
  \<open>asyncio.create_task\<close>, which runs its first step at a later turn of the event loop.
  What then happens to the wrapper is one of four things. Its body runs and
  \<open>await coro\<close> returns a result; or raises an \<open>Exception\<close>; or
  \<open>asyncio.CancelledError\<close> is raised at the await because the task was cancelled
  while it was suspended there; or the task was cancelled before its first step, and
  then \<open>CancelledError\<close> is thrown into the coroutine before its body is entered, so
  that neither the \<open>try\<close> nor its \<open>finally\<close> clause runs. A callback acts on the rest
  of the program (\<open>'w\<close>) and may raise an \<open>Exception\<close>.
\<close>

type_synonym task_id = string

datatype py_exception = PyException string

datatype 'r outcome =
    Returned 'r
  | Raised py_exception
  | CancelledAtAwait
  | CancelledBeforeStart

type_synonym ('a, 'w) callback = "'a \<Rightarrow> 'w \<Rightarrow> 'w \<times> py_exception option"

datatype 'r call = OnComplete task_id 'r | OnError task_id py_exception

datatype log_entry =
    TaskFailed task_id py_exception
  | CompleteHandlerFailed task_id py_exception
  | ErrorHandlerFailed task_id py_exception

datatype wrapper_exit = Finished | ReraisedCancelledError | BodyNotEntered

text \<open>
  \<open>active_tasks\<close> is the dictionary from task id to the callbacks of the task (the
  \<open>asyncio.Task\<close> handle is represented by the id), in insertion order.
  \<open>cancel_requested\<close> lists the ids on whose handle \<open>cancel()\<close> was called,
  \<open>calls\<close> the callback invocations made so far, \<open>error_log\<close> the errors logged.
\<close>

record ('r, 'w) async_loader =
  active_tasks :: "(task_id \<times> (('r, 'w) callback option \<times> (py_exception, 'w) callback option)) list"
  cancel_requested :: "task_id list"
  calls :: "'r call list"
  error_log :: "log_entry list"
  world :: 'w

definition new_async_loader :: "'w \<Rightarrow> ('r, 'w) async_loader" where
  "new_async_loader w =
     \<lparr>active_tasks = [], cancel_requested = [], calls = [], error_log = [], world = w\<rparr>"

definition create_task ::
  "task_id \<Rightarrow> ('r, 'w) callback option \<Rightarrow> (py_exception, 'w) callback option \<Rightarrow>
   ('r, 'w) async_loader \<Rightarrow> ('r, 'w) async_loader" where
  "create_task tid on_complete on_error s =
     s\<lparr>active_tasks := AList.update tid (on_complete, on_error) (active_tasks s)\<rparr>"

text \<open>The \<open>finally\<close> clause of \<open>_task_wrapper\<close>.\<close>

definition remove_active :: "task_id \<Rightarrow> ('r, 'w) async_loader \<Rightarrow> ('r, 'w) async_loader" where
  "remove_active tid s =
     (if map_of (active_tasks s) tid \<noteq> None
      then s\<lparr>active_tasks := AList.delete tid (active_tasks s)\<rparr>
      else s)"

definition task_wrapper ::
  "task_id \<Rightarrow> 'r outcome \<Rightarrow> ('r, 'w) callback option \<Rightarrow> (py_exception, 'w) callback option \<Rightarrow>
   ('r, 'w) async_loader \<Rightarrow> wrapper_exit \<times> ('r, 'w) async_loader" where
  "task_wrapper tid awaited on_complete on_error s =
     (case awaited of
        Returned result \<Rightarrow>
          (case on_complete of
             Some f \<Rightarrow>
               (let (w', raised) = f result (world s);
                    s1 = s\<lparr>world := w', calls := calls s @ [OnComplete tid result]\<rparr>;
                    s2 = (case raised of
                            None \<Rightarrow> s1
                          | Some e \<Rightarrow> s1\<lparr>error_log := error_log s1 @ [CompleteHandlerFailed tid e]\<rparr>)
                in (Finished, remove_active tid s2))
           | None \<Rightarrow> (Finished, remove_active tid s))
      | CancelledAtAwait \<Rightarrow> (ReraisedCancelledError, remove_active tid s)
      | CancelledBeforeStart \<Rightarrow> (BodyNotEntered, s)
      | Raised e \<Rightarrow>
          (let s0 = s\<lparr>error_log := error_log s @ [TaskFailed tid e]\<rparr>
           in case on_error of
                Some f \<Rightarrow>
                  (let (w', raised) = f e (world s0);
                       s1 = s0\<lparr>world := w', calls := calls s0 @ [OnError tid e]\<rparr>;
                       s2 = (case raised of
                               None \<Rightarrow> s1
                             | Some callback_error \<Rightarrow>
                                 s1\<lparr>error_log := error_log s1 @ [ErrorHandlerFailed tid callback_error]\<rparr>)
                   in (Finished, remove_active tid s2))
              | None \<Rightarrow> (Finished, remove_active tid s0)))"

definition cancel_task :: "task_id \<Rightarrow> ('r, 'w) async_loader \<Rightarrow> bool \<times> ('r, 'w) async_loader" where
  "cancel_task tid s =
     (if map_of (active_tasks s) tid \<noteq> None
      then (True, s\<lparr>cancel_requested := cancel_requested s @ [tid]\<rparr>)
      else (False, s))"

definition cancel_all_tasks :: "('r, 'w) async_loader \<Rightarrow> ('r, 'w) async_loader" where
  "cancel_all_tasks s =
     s\<lparr>cancel_requested := cancel_requested s @ map fst (active_tasks s),
       active_tasks := []\<rparr>"

definition get_active_tasks_count :: "('r, 'w) async_loader \<Rightarrow> nat" where
  "get_active_tasks_count s = length (active_tasks s)"

definition is_task_active :: "task_id \<Rightarrow> ('r, 'w) async_loader \<Rightarrow> bool" where
  "is_task_active tid s = (map_of (active_tasks s) tid \<noteq> None)"

text \<open>
  A scheduled task with what its awaited operation does: id, outcome, \<open>on_complete\<close>,
  \<open>on_error\<close>. \<open>schedule_all\<close> calls \<open>create_task\<close> for each, \<open>settle_all\<close> runs
  the wrappers to their end, one after the other on the single thread of the event loop.
\<close>

type_synonym ('r, 'w) scheduled =
  "task_id \<times> 'r outcome \<times> ('r, 'w) callback option \<times> (py_exception, 'w) callback option"

fun schedule_all :: "('r, 'w) scheduled list \<Rightarrow> ('r, 'w) async_loader \<Rightarrow> ('r, 'w) async_loader" where
  "schedule_all [] s = s"
| "schedule_all ((tid, awaited, on_complete, on_error) # ts) s =
     schedule_all ts (create_task tid on_complete on_error s)"

fun settle_all :: "('r, 'w) scheduled list \<Rightarrow> ('r, 'w) async_loader \<Rightarrow> ('r, 'w) async_loader" where
  "settle_all [] s = s"
| "settle_all ((tid, awaited, on_complete, on_error) # ts) s =
     settle_all ts (snd (task_wrapper tid awaited on_complete on_error s))"

text \<open>
  The callback invocations the specification allows one task: the matching callback,
  once, when the task settles and that callback was supplied.
\<close>

fun expected_calls :: "('r, 'w) scheduled \<Rightarrow> 'r call list" where
  "expected_calls (tid, Returned result, on_complete, on_error) =
     (if on_complete \<noteq> None then [OnComplete tid result] else [])"
| "expected_calls (tid, Raised e, on_complete, on_error) =
     (if on_error \<noteq> None then [OnError tid e] else [])"
| "expected_calls (tid, CancelledAtAwait, on_complete, on_error) = []"
| "expected_calls (tid, CancelledBeforeStart, on_complete, on_error) = []"

text \<open>
  Whether a task settles into a callback that was supplied: it was not cancelled, and
  the callback for its outcome is not \<open>None\<close>.
\<close>

fun has_matching_callback :: "('r, 'w) scheduled \<Rightarrow> bool" where
  "has_matching_callback (tid, Returned result, on_complete, on_error) = (on_complete \<noteq> None)"
| "has_matching_callback (tid, Raised e, on_complete, on_error) = (on_error \<noteq> None)"
| "has_matching_callback (tid, CancelledAtAwait, on_complete, on_error) = False"
| "has_matching_callback (tid, CancelledBeforeStart, on_complete, on_error) = False"

section \<open>Concrete inputs\<close>

definition example_cache :: "(nat, nat) cache_manager" where
  "example_cache =
     store_messages
       (store_dialogs (new_cache_manager 5 None None) 100 [7, 8] True)
       100 42 [1, 2, 3]"

definition opened_chat :: "nat telegram_cli" where
  "opened_chat =
     on_messages_loaded 0 1 [101, 102]
       \<lparr>dialog_list = [\<lparr>dialog_id = 1, unread_count = 2\<rparr>],
        selected_messages = [],
        selected_dialog_index = 0,
        selected_message_index = 0,
        is_loading = True,
        cli_cache = new_cache_manager 5 None None,
        message_fetches = [1]\<rparr>"


definition counting_manager :: "nat state_manager" where
  "counting_manager =
     register_state_change_callback INIT (\<lambda>d. (d, False))
       (register_state_change_callback DIALOGS (\<lambda>d. (d, True)) new_state_manager)"

definition quiet_callback :: "('a, nat) callback" where
  "quiet_callback = (\<lambda>_ w. (Suc w, None))"

definition raising_callback :: "('a, nat) callback" where
  "raising_callback = (\<lambda>_ w. (Suc w, Some (PyException ''boom'')))"

definition two_tasks :: "(nat, nat) scheduled list" where
  "two_tasks =
     [(''t1'', Returned 7, Some raising_callback, Some quiet_callback),
      (''t2'', Raised (PyException ''net''), Some quiet_callback, Some raising_callback)]"

definition short_message :: message where
  "short_message = \<lparr>message_body = Some [97, 97, 32, 98, 98, 98, 98, 98, 98, 98, 32, 99], media = None\<rparr>"

definition empty_message :: message where
  "empty_message = \<lparr>message_body = Some [], media = None\<rparr>"

text \<open>
  A task created and cancelled at once with \<open>cancel_task\<close>, before the event loop has
  run its first step; then the event loop takes the task up.
\<close>

definition created_then_cancelled :: "(nat, nat) async_loader" where
  "created_then_cancelled =
     snd (cancel_task ''t1''
            (create_task ''t1'' (Some quiet_callback) (Some quiet_callback)
               (new_async_loader 0)))"

definition cancelled_task_taken_up :: "(nat, nat) async_loader" where
  "cancelled_task_taken_up =
     snd (task_wrapper ''t1'' CancelledBeforeStart (Some quiet_callback) (Some quiet_callback)
            created_then_cancelled)"

section \<open>Verification: the cache manager\<close>

lemma restored_entries_have_no_data:
  assumes "\<forall>e \<in> snd ` set acc. me_data e = None"
  shows "\<forall>e \<in> snd ` set
           (fold (\<lambda>(k, ts). AList.update k
                    \<lparr>me_data = None, me_timestamp = (case ts of None \<Rightarrow> 0 | Some t \<Rightarrow> t)\<rparr>)
                 entries acc). me_data e = None"
  using assms
proof (induction entries arbitrary: acc)
  case Nil
  then show ?case by simp
next
  case (Cons x entries)
  obtain k ts where x: "x = (k, ts)" by (cases x)
  let ?e = "\<lparr>me_data = None, me_timestamp = (case ts of None \<Rightarrow> 0 | Some t \<Rightarrow> t)\<rparr>"
  have "\<forall>e \<in> snd ` set (AList.update k ?e acc). me_data e = None"
  proof
    fix e assume "e \<in> snd ` set (AList.update k ?e acc)"
    then obtain k' where "(k', e) \<in> set (AList.update k ?e acc)" by auto
    then have "(k', e) \<in> set acc \<or> e = ?e"
      by (induction acc) (auto split: if_splits)
    then show "me_data e = None" using Cons.prems by force
  qed
  from Cons.IH [OF this] show ?case by (simp add: x)
qed

lemma get_messages_no_data:
  assumes "\<forall>e \<in> snd ` set (messages_cache c). me_data e = None"
  shows "get_messages c now k = None"
proof (cases "map_of (messages_cache c) k")
  case None
  then show ?thesis by (simp add: get_messages_def)
next
  case (Some e)
  then have "(k, e) \<in> set (messages_cache c)" by (rule map_of_SomeD)
  then have "me_data e = None" using assms by force
  then show ?thesis using Some by (simp add: get_messages_def)
qed

lemma restored_cache_no_data:
  "\<forall>e \<in> snd ` set (messages_cache (new_cache_manager ttl dj mj :: ('a, 'b) cache_manager)).
     me_data e = None"
proof (cases mj)
  case None
  then show ?thesis
    by (simp add: new_cache_manager_def load_cache_def Let_def split: option.splits)
next
  case (Some entries)
  have "\<forall>e \<in> snd ` set
           (fold (\<lambda>(k, ts). AList.update k
                    \<lparr>me_data = (None :: 'b list option),
                     me_timestamp = (case ts of None \<Rightarrow> 0 | Some t \<Rightarrow> t)\<rparr>)
                 entries []). me_data e = None"
    by (rule restored_entries_have_no_data) simp
  then show ?thesis
    unfolding new_cache_manager_def load_cache_def Let_def Some
    by (simp split: option.splits)
qed

lemma get_messages_restored:
  "get_messages (new_cache_manager ttl dj mj) now k = None"
  by (rule get_messages_no_data) (rule restored_cache_no_data)

lemma get_dialogs_restored:
  "get_dialogs (new_cache_manager ttl dj mj) now u = None"
  by (simp add: get_dialogs_def new_cache_manager_def load_cache_def Let_def split: option.splits)

lemma get_dialogs_Some_iff:
  "get_dialogs c now u = Some v \<longleftrightarrow>
     dc_data (dialogs_cache c) = Some v \<and>
     now - dc_timestamp (dialogs_cache c) < real_of_int (max_age_minutes c * 60) \<and>
     dc_only_unread (dialogs_cache c) = u"
  by (auto simp: get_dialogs_def Let_def)

lemma get_messages_Some_iff:
  "get_messages c now k = Some v \<longleftrightarrow>
     (\<exists>e. map_of (messages_cache c) k = Some e \<and> me_data e = Some v \<and>
          now - me_timestamp e < real_of_int (max_age_minutes c * 60))"
  by (auto simp: get_messages_def split: option.splits)

lemma get_messages_invalidated:
  "get_messages (invalidate_messages_cache c (Some k)) now k = None"
  by (simp add: get_messages_def invalidate_messages_cache_def delete_conv' split: option.splits)

lemma get_messages_invalidated_all:
  "get_messages (invalidate_messages_cache c None) now k = None"
  by (simp add: get_messages_def invalidate_messages_cache_def)

text \<open>
  Claim C5. A cache read returns a value exactly when the entry is valid: the value is
  present, \<open>now - timestamp\<close> is below \<open>max_age_minutes\<close> (in seconds), and for
  the dialog slot the stored \<open>only_unread\<close> equals the requested one; it then returns
  the stored value. An entry that is not valid reads as an absent one does (an
  invalidated slot or key reads \<open>None\<close>). A cache manager restored from persisted
  metadata, whatever the timestamps, misses on every dialog-list and every
  per-conversation lookup, because the restored entries carry no value.
\<close>

theorem cache_read_valid_iff:
  "(get_dialogs c now u = Some v \<longleftrightarrow>
      dc_data (dialogs_cache c) = Some v \<and>
      now - dc_timestamp (dialogs_cache c) < real_of_int (max_age_minutes c * 60) \<and>
      dc_only_unread (dialogs_cache c) = u) \<and>
   (get_messages c now k = Some w \<longleftrightarrow>
      (\<exists>e. map_of (messages_cache c) k = Some e \<and> me_data e = Some w \<and>
           now - me_timestamp e < real_of_int (max_age_minutes c * 60))) \<and>
   get_dialogs (invalidate_dialog_cache c) now u = None \<and>
   get_messages (invalidate_messages_cache c (Some k)) now k = None \<and>
   get_messages (invalidate_messages_cache c None) now k = None \<and>
   get_dialogs (new_cache_manager ttl dialogs_json messages_json :: ('d, 'm) cache_manager) now u = None \<and>
   get_messages (new_cache_manager ttl dialogs_json messages_json :: ('d, 'm) cache_manager) now k = None"
  using get_dialogs_Some_iff [of c now u v] get_messages_Some_iff [of c now k w]
    get_messages_invalidated [of c k now] get_messages_invalidated_all [of c now k]
    get_dialogs_restored [of ttl dialogs_json messages_json now u]
    get_messages_restored [of ttl dialogs_json messages_json now k]
  by (simp add: get_dialogs_def invalidate_dialog_cache_def)

text \<open>
  A cache with a five-minute limit filled at time 100: hits at 399, misses at 400 and
  for the other filter; saved and restored, the entry of dialog 42 keeps its timestamp
  and a lookup one second later misses.
\<close>

theorem cache_read_valid_iff_witness:
  "get_dialogs example_cache 399 True = Some [7, 8] \<and>
   get_dialogs example_cache 400 True = None \<and>
   get_dialogs example_cache 399 False = None \<and>
   get_messages example_cache 399 42 = Some [1, 2, 3] \<and>
   get_messages example_cache 400 42 = None \<and>
   snd (save_cache example_cache) = [(42, Some 100)] \<and>
   get_messages
     (new_cache_manager 5 (Some (fst (save_cache example_cache)))
        (Some (snd (save_cache example_cache))) :: (nat, nat) cache_manager) 101 42 = None"
proof -
  have a: "get_dialogs example_cache 399 True = Some [7, 8]"
    by (simp add: example_cache_def get_dialogs_def store_dialogs_def store_messages_def
        new_cache_manager_def load_cache_def)
  have b: "get_messages example_cache 399 42 = Some [1, 2, 3]"
    by (simp add: example_cache_def get_messages_def store_dialogs_def store_messages_def
        new_cache_manager_def load_cache_def)
  have c: "snd (save_cache example_cache) = [(42, Some 100)]"
    by (simp add: example_cache_def save_cache_def store_dialogs_def store_messages_def
        new_cache_manager_def load_cache_def)
  have d: "dc_timestamp (dialogs_cache example_cache) = 100 \<and>
           dc_only_unread (dialogs_cache example_cache) = True \<and>
           max_age_minutes example_cache = 5 \<and>
           messages_cache example_cache = [(42, \<lparr>me_data = Some [1, 2, 3], me_timestamp = 100\<rparr>)]"
    by (simp add: example_cache_def store_dialogs_def store_messages_def
        new_cache_manager_def load_cache_def)
  show ?thesis
    using a b c d
      cache_read_valid_iff [of example_cache 400 True "[7, 8]" 42 "[1, 2, 3]"]
      cache_read_valid_iff [of example_cache 399 False "[7, 8]" 42 "[1, 2, 3]"]
      cache_read_valid_iff [of example_cache 101 True "[7, 8]" 42 "[1, 2, 3]" 5
        "Some (fst (save_cache example_cache))" "Some (snd (save_cache example_cache))",
        where ?'d = nat and ?'m = nat]
    by (auto simp: get_dialogs_def get_messages_def)
qed

section \<open>Verification: refreshing the message list\<close>


lemma opened_chat_simps:
  "dialog_list opened_chat = [\<lparr>dialog_id = 1, unread_count = 2\<rparr>]"
  "selected_dialog_index opened_chat = 0"
  "selected_messages opened_chat = [101, 102]"
  "message_fetches opened_chat = [1]"
  "messages_cache (cli_cache opened_chat) = [(1, \<lparr>me_data = Some [101, 102], me_timestamp = 0\<rparr>)]"
  "max_age_minutes (cli_cache opened_chat) = 5"
  by (simp_all add: opened_chat_def on_messages_loaded_def store_messages_def
      new_cache_manager_def load_cache_def)



text \<open>
  Claim C3 fails on the code. A chat was opened at time 0 and its two messages were
  cached. A reply is sent and marked as read; the completion path runs
  \<open>refresh_messages\<close> at time 10. The cache is the one from before the send, the
  lookup hits, no fetch task is created and the list on display is the one from before
  the send.
\<close>

theorem reply_sent_serves_stale_cache:
  "selected_messages opened_chat = [101, 102] \<and>
   get_messages (cli_cache opened_chat) 10 1 = Some [101, 102] \<and>
   cli_cache (on_reply_sent 10 True opened_chat) = cli_cache opened_chat \<and>
   get_messages (cli_cache (on_reply_sent 10 True opened_chat)) 10 1 = Some [101, 102] \<and>
   message_fetches (on_reply_sent 10 True opened_chat) = message_fetches opened_chat \<and>
   selected_messages (on_reply_sent 10 True opened_chat) = [101, 102]"
proof -
  have g: "get_messages (cli_cache opened_chat) 10 1 = Some [101, 102]"
    by (simp add: get_messages_def opened_chat_simps)
  then show ?thesis
    by (simp add: on_reply_sent_def on_message_marked_read_def refresh_messages_def
        opened_chat_simps Let_def)
qed

section \<open>Verification: the task loader\<close>

lemma remove_active_fields:
  "calls (remove_active tid s) = calls s"
  "error_log (remove_active tid s) = error_log s"
  "world (remove_active tid s) = world s"
  "cancel_requested (remove_active tid s) = cancel_requested s"
  by (simp_all add: remove_active_def)

lemma remove_active_table:
  "active_tasks (remove_active tid s) = AList.delete tid (active_tasks s)"
proof (cases "map_of (active_tasks s) tid")
  case None
  then have "tid \<notin> fst ` set (active_tasks s)" by (simp add: map_of_eq_None_iff)
  then show ?thesis using None by (simp add: remove_active_def)
next
  case (Some a)
  then show ?thesis by (simp add: remove_active_def)
qed

lemma task_wrapper_calls:
  "calls (snd (task_wrapper tid awaited oc oe s)) = calls s @ expected_calls (tid, awaited, oc, oe)"
  by (cases awaited; cases oc; cases oe)
     (simp_all add: task_wrapper_def remove_active_fields Let_def split: prod.splits option.splits)

lemma task_wrapper_table:
  "awaited \<noteq> CancelledBeforeStart \<Longrightarrow>
   active_tasks (snd (task_wrapper tid awaited oc oe s)) = AList.delete tid (active_tasks s)"
  by (cases awaited; cases oc; cases oe)
     (simp_all add: task_wrapper_def remove_active_table Let_def split: prod.splits option.splits)

lemma task_wrapper_exit:
  "fst (task_wrapper tid awaited oc oe s) =
     (case awaited of
        CancelledAtAwait \<Rightarrow> ReraisedCancelledError
      | CancelledBeforeStart \<Rightarrow> BodyNotEntered
      | _ \<Rightarrow> Finished)"
  by (cases awaited; cases oc; cases oe)
     (simp_all add: task_wrapper_def Let_def split: prod.splits option.splits)

lemma settle_all_calls:
  "calls (settle_all ts s) = calls s @ concat (map expected_calls ts)"
proof (induction ts arbitrary: s)
  case Nil
  then show ?case by simp
next
  case (Cons t ts)
  obtain tid awaited oc oe where t: "t = (tid, awaited, oc, oe)" by (cases t)
  show ?case by (simp add: t Cons.IH task_wrapper_calls)
qed

lemma schedule_all_calls: "calls (schedule_all ts s) = calls s"
proof (induction ts arbitrary: s)
  case Nil
  then show ?case by simp
next
  case (Cons t ts)
  obtain tid awaited oc oe where t: "t = (tid, awaited, oc, oe)" by (cases t)
  show ?case by (simp add: t Cons.IH create_task_def)
qed

lemma expected_calls_length:
  "length (expected_calls t) = (if has_matching_callback t then 1 else 0)"
proof -
  obtain tid awaited oc oe where t: "t = (tid, awaited, oc, oe)" by (cases t)
  show ?thesis by (cases awaited) (simp_all add: t)
qed

lemma expected_calls_total:
  "length (concat (map expected_calls ts)) = length (filter has_matching_callback ts)"
  by (induction ts) (simp_all add: expected_calls_length)

text \<open>
  Claim C6, as amended. For tasks scheduled with \<open>create_task\<close> and run to their end,
  each task invokes at most one callback, at most once: \<open>on_complete\<close> with the result
  when the operation returns and \<open>on_complete\<close> was supplied, \<open>on_error\<close> with the
  exception when it raises and \<open>on_error\<close> was supplied, nothing when the task is
  cancelled or the matching callback is \<open>None\<close>. For N tasks the number of callback
  invocations is the number of tasks that settle into a supplied callback: at most N, and
  exactly N when every task does.
\<close>

theorem callbacks_at_most_once_per_task:
  "calls (settle_all ts (schedule_all ts s)) = calls s @ concat (map expected_calls ts) \<and>
   length (calls (settle_all ts (schedule_all ts s))) =
     length (calls s) + length (filter has_matching_callback ts) \<and>
   length (calls (settle_all ts (schedule_all ts s))) \<le> length (calls s) + length ts \<and>
   (list_all has_matching_callback ts \<longrightarrow>
      length (calls (settle_all ts (schedule_all ts s))) = length (calls s) + length ts)"
proof -
  have c: "calls (settle_all ts (schedule_all ts s)) = calls s @ concat (map expected_calls ts)"
    by (simp add: settle_all_calls schedule_all_calls)
  have l: "length (calls (settle_all ts (schedule_all ts s))) =
             length (calls s) + length (filter has_matching_callback ts)"
    by (simp add: c expected_calls_total)
  have "list_all has_matching_callback ts \<Longrightarrow> filter has_matching_callback ts = ts"
    by (simp add: list_all_iff)
  then show ?thesis using c l by (auto simp: le_trans [OF length_filter_le])
qed

text \<open>
  Two tasks with both callbacks, one returning and one raising; the callbacks
  themselves raise or not.
\<close>

theorem callbacks_at_most_once_per_task_witness:
  "list_all has_matching_callback two_tasks \<and>
   calls (settle_all two_tasks (schedule_all two_tasks (new_async_loader 0))) =
     [OnComplete ''t1'' 7, OnError ''t2'' (PyException ''net'')] \<and>
   length (calls (settle_all two_tasks (schedule_all two_tasks (new_async_loader 0)))) = 2"
proof -
  have h: "list_all has_matching_callback two_tasks"
    by (simp add: two_tasks_def)
  have c: "calls (new_async_loader (0::nat) :: (nat, nat) async_loader) = []"
    by (simp add: new_async_loader_def)
  show ?thesis
    using h c callbacks_at_most_once_per_task [of two_tasks "new_async_loader 0"]
    by (simp add: two_tasks_def)
qed

text \<open>
  Claim C6 as stated fails: a task created with \<open>on_error\<close> only (as
  \<open>_on_message_marked_read\<close> creates its refresh task) that returns a result invokes
  neither callback.
\<close>

theorem task_without_on_complete_invokes_nothing:
  "calls (settle_all [(''t1'', Returned (7::nat), None, Some quiet_callback)]
            (schedule_all [(''t1'', Returned 7, None, Some quiet_callback)]
               (new_async_loader (0::nat)))) = []"
  by (simp add: task_wrapper_def create_task_def new_async_loader_def remove_active_def)

text \<open>
  What holds of a wrapper whose body is entered: whatever the awaited operation does
  (return, raise, be cancelled at the await) and whatever the callbacks do (return or
  raise), the \<open>finally\<close> clause removes exactly the entry of its task; when the
  operation returns or raises the wrapper ends normally, so an exception of a callback
  does not leave it; and \<open>cancel_all_tasks\<close>, which clears the table itself, leaves
  the count of active tasks at 0.
\<close>

lemma entered_wrapper_removes_task:
  assumes "awaited \<noteq> CancelledBeforeStart"
  shows "active_tasks (snd (task_wrapper tid awaited oc oe s)) = AList.delete tid (active_tasks s)"
    and "\<not> is_task_active tid (snd (task_wrapper tid awaited oc oe s))"
    and "awaited \<noteq> CancelledAtAwait \<Longrightarrow> fst (task_wrapper tid awaited oc oe s) = Finished"
proof -
  show t: "active_tasks (snd (task_wrapper tid awaited oc oe s)) = AList.delete tid (active_tasks s)"
    using assms by (rule task_wrapper_table)
  show "\<not> is_task_active tid (snd (task_wrapper tid awaited oc oe s))"
    using delete_notin_dom [of tid "active_tasks s"]
    by (simp add: is_task_active_def t map_of_eq_None_iff)
  show "awaited \<noteq> CancelledAtAwait \<Longrightarrow> fst (task_wrapper tid awaited oc oe s) = Finished"
    using assms by (cases awaited) (simp_all add: task_wrapper_exit)
qed

lemma cancel_all_tasks_count: "get_active_tasks_count (cancel_all_tasks s) = 0"
  by (simp add: get_active_tasks_count_def cancel_all_tasks_def)

lemma created_then_cancelled_table:
  "active_tasks created_then_cancelled = [(''t1'', (Some quiet_callback, Some quiet_callback))]"
  "cancel_requested created_then_cancelled = [''t1'']"
  by (simp_all add: created_then_cancelled_def cancel_task_def create_task_def
      new_async_loader_def)

text \<open>
  Claim C7 fails on the code. A task is created and cancelled with \<open>cancel_task\<close>
  before its first step: \<open>cancel_task\<close> finds it and answers \<open>True\<close>, but it does not
  delete the entry, and the only deletion of a single task, the \<open>finally\<close> clause of
  the wrapper, is never reached. When the event loop takes the task up the task is still
  in the active table, the count of active tasks is 1, and no later step removes it.
  \<open>cancel_all_tasks\<close> on the same loader clears the table itself and leaves 0.
\<close>

theorem cancelled_before_start_stays_active:
  "fst (cancel_task ''t1''
          (create_task ''t1'' (Some quiet_callback) (Some quiet_callback)
             (new_async_loader (0::nat)) :: (nat, nat) async_loader)) = True \<and>
   is_task_active ''t1'' created_then_cancelled \<and>
   is_task_active ''t1'' cancelled_task_taken_up \<and>
   get_active_tasks_count cancelled_task_taken_up = 1 \<and>
   calls cancelled_task_taken_up = [] \<and>
   get_active_tasks_count (cancel_all_tasks created_then_cancelled) = 0"
proof -
  have c: "fst (cancel_task ''t1''
          (create_task ''t1'' (Some quiet_callback) (Some quiet_callback)
             (new_async_loader (0::nat)) :: (nat, nat) async_loader)) = True"
    by (simp add: cancel_task_def create_task_def new_async_loader_def)
  have u: "cancelled_task_taken_up = created_then_cancelled"
    by (simp add: cancelled_task_taken_up_def task_wrapper_def)
  have k: "calls created_then_cancelled = []"
    by (simp add: created_then_cancelled_def cancel_task_def create_task_def
        new_async_loader_def)
  show ?thesis
    using c k
    by (simp add: u is_task_active_def get_active_tasks_count_def
        created_then_cancelled_table cancel_all_tasks_def)
qed

section \<open>Verification: the state manager\<close>

lemma run_callbacks_keeps_states:
  "current_state (run_callbacks st i cbs s) = current_state s \<and>
   prev_state (run_callbacks st i cbs s) = prev_state s"
  by (induction cbs arbitrary: i s) (auto simp: Let_def split: prod.splits)

lemma set_state_changes:
  "X \<noteq> current_state s \<Longrightarrow>
   current_state (set_state X d s) = X \<and> prev_state (set_state X d s) = Some (current_state s)"
  by (simp add: set_state_def notify_state_change_def Let_def run_callbacks_keeps_states)

lemma set_state_current: "current_state (set_state X d s) = X"
  by (cases "X = current_state s") (simp_all add: set_state_changes, simp add: set_state_def)

text \<open>
  Claim C9. \<open>set_state(X)\<close> when the current state is already X leaves the state
  manager as it is, the record of callback invocations included; and after
  \<open>set_state(A)\<close> then \<open>set_state(B)\<close> with A and B different,
  \<open>return_to_previous_state()\<close> makes A the current state and B the previous one.
\<close>

theorem set_state_same_and_return:
  "(current_state s = X \<longrightarrow> set_state X d s = s) \<and>
   (A \<noteq> B \<longrightarrow>
      current_state (return_to_previous_state (set_state B d2 (set_state A d1 s))) = A \<and>
      prev_state (return_to_previous_state (set_state B d2 (set_state A d1 s))) = Some B)"
proof (intro conjI impI)
  assume "current_state s = X"
  then show "set_state X d s = s" by (simp add: set_state_def)
next
  assume ab: "A \<noteq> B"
  let ?s1 = "set_state A d1 s"
  let ?s2 = "set_state B d2 ?s1"
  have c1: "current_state ?s1 = A" by (rule set_state_current)
  have s2: "current_state ?s2 = B \<and> prev_state ?s2 = Some A"
    using set_state_changes [of B ?s1 d2] ab c1 by simp
  have r: "return_to_previous_state ?s2 = set_state A Map.empty ?s2"
    using s2 by (simp add: return_to_previous_state_def)
  have "current_state (set_state A Map.empty ?s2) = A \<and>
        prev_state (set_state A Map.empty ?s2) = Some B"
    using set_state_changes [of A ?s2 Map.empty] ab s2 by simp
  then show "current_state (return_to_previous_state ?s2) = A"
    and "prev_state (return_to_previous_state ?s2) = Some B"
    using r by simp_all
qed

text \<open>
  A manager with callbacks on two states, one of them raising.
\<close>

theorem set_state_same_and_return_witness:
  "current_state counting_manager = INIT \<and>
   notifications (set_state INIT [''k'' \<mapsto> 1] counting_manager) = [] \<and>
   set_state INIT [''k'' \<mapsto> 1] counting_manager = counting_manager \<and>
   DIALOGS \<noteq> CHAT \<and>
   current_state (return_to_previous_state
     (set_state CHAT Map.empty (set_state DIALOGS Map.empty counting_manager))) = DIALOGS \<and>
   prev_state (return_to_previous_state
     (set_state CHAT Map.empty (set_state DIALOGS Map.empty counting_manager))) = Some CHAT"
proof -
  have c: "current_state counting_manager = INIT"
    by (simp add: counting_manager_def register_state_change_callback_def new_state_manager_def)
  have n: "notifications counting_manager = []"
    by (simp add: counting_manager_def register_state_change_callback_def new_state_manager_def)
  show ?thesis
    using c n
      set_state_same_and_return [of counting_manager INIT "[''k'' \<mapsto> 1]" DIALOGS CHAT Map.empty Map.empty]
    by simp
qed

section \<open>Verification: text wrapping\<close>

lemma split_where_not_Nil: "split_where P s \<noteq> []"
  by (induction s) (auto split: list.splits)

lemma split_where_append:
  "P c \<Longrightarrow> split_where P (a @ c # b) = split_where P a @ split_where P b"
proof (induction a)
  case Nil
  then show ?case by simp
next
  case (Cons x a)
  obtain w ws where sa: "split_where P a = w # ws"
    using split_where_not_Nil [of P a] by (cases "split_where P a") auto
  show ?case using Cons sa by simp
qed

lemma split_where_pieces:
  "w \<in> set (split_where P s) \<Longrightarrow> set w \<subseteq> set s \<and> (\<forall>c \<in> set w. \<not> P c)"
proof (induction s arbitrary: w)
  case Nil
  then show ?case by simp
next
  case (Cons x s)
  obtain u us where ss: "split_where P s = u # us"
    using split_where_not_Nil [of P s] by (cases "split_where P s") auto
  show ?case
  proof (cases "P x")
    case True
    with Cons show ?thesis by auto
  next
    case False
    then have "w = x # u \<or> w \<in> set us" using Cons.prems ss by simp
    moreover have "set u \<subseteq> set s \<and> (\<forall>c \<in> set u. \<not> P c)"
      using Cons.IH [of u] ss by simp
    moreover have "w \<in> set us \<Longrightarrow> set w \<subseteq> set s \<and> (\<forall>c \<in> set w. \<not> P c)"
      using Cons.IH [of w] ss by simp
    ultimately show ?thesis using False by auto
  qed
qed

lemma join_split: "join_with sep (split_where (\<lambda>c. c = sep) s) = s"
proof (induction s)
  case Nil
  then show ?case by simp
next
  case (Cons x s)
  obtain u us where ss: "split_where (\<lambda>c. c = sep) s = u # us"
    using split_where_not_Nil [of "\<lambda>c. c = sep" s] by (cases "split_where (\<lambda>c. c = sep) s") auto
  show ?case
  proof (cases "x = sep")
    case True
    with Cons ss show ?thesis by simp
  next
    case False
    have "join_with sep ((x # u) # us) = x # join_with sep (u # us)"
      by (cases us) simp_all
    with Cons ss False show ?thesis by simp
  qed
qed

lemma py_words_Nil: "py_words [] = []"
  by (simp add: py_words_def)

lemma py_words_append:
  "is_space c \<Longrightarrow> py_words (a @ c # b) = py_words a @ py_words b"
  by (simp add: py_words_def split_where_append)

lemma py_words_join:
  "is_space sep \<Longrightarrow> py_words (join_with sep xs) = concat (map py_words xs)"
  by (induction sep xs rule: join_with.induct) (simp_all add: py_words_Nil py_words_append)

lemma py_words_split:
  "is_space sep \<Longrightarrow> concat (map py_words (py_split sep s)) = py_words s"
  using py_words_join [of sep "py_split sep s"] by (simp add: py_split_def join_split)

lemma is_space_SPACE: "is_space SPACE"
  by (simp add: is_space_def SPACE_def)

lemma is_space_NEWLINE: "is_space NEWLINE"
  by (simp add: is_space_def NEWLINE_def)

lemma pack_words_words:
  "concat (map py_words (pack_words w words cur)) = py_words cur @ concat (map py_words words)"
proof (induction words arbitrary: cur)
  case Nil
  then show ?case by (simp add: py_words_Nil)
next
  case (Cons word ws)
  show ?case
    by (simp add: Cons.IH py_words_append [OF is_space_SPACE] py_words_Nil)
qed

lemma wrap_line_words: "concat (map py_words (wrap_line w line)) = py_words line"
  by (simp add: wrap_line_def pack_words_words py_words_Nil py_words_split [OF is_space_SPACE])

lemma format_message_text_words:
  "py_words (join_with SPACE (format_message_text m w)) = py_words (displayed_text m)"
proof -
  have "concat (map py_words (concat (map (wrap_line w) ls))) = concat (map py_words ls)" for ls
    by (induction ls) (simp_all add: wrap_line_words)
  then show ?thesis
    by (simp add: format_message_text_def py_words_join [OF is_space_SPACE]
        py_words_split [OF is_space_NEWLINE])
qed

lemma pack_words_lines:
  "l \<in> set (pack_words w words cur) \<Longrightarrow> int (length l) \<le> w \<or> l = cur \<or> l \<in> set words"
proof (induction words arbitrary: cur)
  case Nil
  then show ?case by (simp split: if_splits)
next
  case (Cons word ws)
  show ?case
  proof (cases "int (length cur) + int (length word) + 1 \<le> w")
    case True
    let ?cur' = "if cur \<noteq> [] then cur @ SPACE # word else word"
    have "l \<in> set (pack_words w ws ?cur')" using Cons.prems True by simp
    then have "int (length l) \<le> w \<or> l = ?cur' \<or> l \<in> set ws" by (rule Cons.IH)
    moreover have "int (length ?cur') \<le> w" using True by simp
    ultimately show ?thesis by auto
  next
    case False
    then have "l = cur \<or> l \<in> set (pack_words w ws word)" using Cons.prems by simp
    then show ?thesis using Cons.IH [of word] by auto
  qed
qed

lemma format_message_text_lines:
  assumes "l \<in> set (format_message_text m w)"
  shows "int (length l) \<le> w \<or> l = [] \<or> l \<in> set (space_separated_words (displayed_text m))"
proof -
  obtain line where line: "line \<in> set (py_split NEWLINE (displayed_text m))"
    and l: "l \<in> set (wrap_line w line)"
    using assms by (auto simp: format_message_text_def)
  show ?thesis
  proof (cases "int (length line) \<le> w")
    case True
    with l show ?thesis by (simp add: wrap_line_def)
  next
    case False
    then have "l \<in> set (pack_words w (py_split SPACE line) [])"
      using l by (simp add: wrap_line_def)
    then have "int (length l) \<le> w \<or> l = [] \<or> l \<in> set (py_split SPACE line)"
      by (rule pack_words_lines)
    then show ?thesis using line by (auto simp: space_separated_words_def)
  qed
qed

lemma space_separated_word_chars:
  assumes "l \<in> set (space_separated_words body)"
  shows "SPACE \<notin> set l \<and> NEWLINE \<notin> set l"
proof -
  obtain line where line: "line \<in> set (py_split NEWLINE body)" and l: "l \<in> set (py_split SPACE line)"
    using assms by (auto simp: space_separated_words_def)
  have "set line \<subseteq> set body \<and> (\<forall>c \<in> set line. c \<noteq> NEWLINE)"
    using split_where_pieces [of line "\<lambda>c. c = NEWLINE" body] line by (simp add: py_split_def)
  moreover have "set l \<subseteq> set line \<and> (\<forall>c \<in> set l. c \<noteq> SPACE)"
    using split_where_pieces [of l "\<lambda>c. c = SPACE" line] l by (simp add: py_split_def)
  ultimately show ?thesis by auto
qed

text \<open>
  Claim C8, as amended. For every message with a non-empty body text and every width W,
  a line produced by \<open>format_message_text\<close> that is longer than W contains neither a
  space nor a line feed, and for W at least 0 it is one of the space-separated words of
  the body, unchanged; and the lines joined with single spaces have the same sequence of
  whitespace-separated words as the body.
\<close>

theorem wrapped_lines_and_words:
  assumes "message_body m = Some t" and "t \<noteq> []"
  shows "(\<forall>l \<in> set (format_message_text m W).
            W < int (length l) \<longrightarrow>
              SPACE \<notin> set l \<and> NEWLINE \<notin> set l \<and>
              (0 \<le> W \<longrightarrow> l \<in> set (space_separated_words t))) \<and>
         py_words (join_with SPACE (format_message_text m W)) = py_words t"
proof -
  have d: "displayed_text m = t"
    using assms by (simp add: displayed_text_def Let_def split: option.splits)
  have "SPACE \<notin> set l \<and> NEWLINE \<notin> set l \<and> (0 \<le> W \<longrightarrow> l \<in> set (space_separated_words t))"
    if l: "l \<in> set (format_message_text m W)" and long: "W < int (length l)" for l
  proof -
    have c: "l = [] \<or> l \<in> set (space_separated_words t)"
      using format_message_text_lines [OF l] long d by auto
    then have "SPACE \<notin> set l \<and> NEWLINE \<notin> set l"
      using space_separated_word_chars [of l t] by auto
    moreover have "0 \<le> W \<Longrightarrow> l \<in> set (space_separated_words t)"
      using c long by auto
    ultimately show ?thesis by simp
  qed
  then show ?thesis using format_message_text_words [of m W] d by simp
qed

lemma short_message_lines:
  "format_message_text short_message 4 = [[97, 97], [98, 98, 98, 98, 98, 98, 98], [99]]"
  by (simp add: format_message_text_def displayed_text_def short_message_def wrap_line_def
      py_split_def NEWLINE_def SPACE_def)

text \<open>
  The body \<open>aa bbbbbbb c\<close> at width 4: the word of seven letters is a line of its own.
\<close>

theorem wrapped_lines_and_words_witness:
  "message_body short_message = Some [97, 97, 32, 98, 98, 98, 98, 98, 98, 98, 32, 99] \<and>
   format_message_text short_message 4 = [[97, 97], [98, 98, 98, 98, 98, 98, 98], [99]] \<and>
   [98, 98, 98, 98, 98, 98, 98] \<in> set (format_message_text short_message 4) \<and>
   (4::int) < int (length [98, 98, 98, 98, 98, 98, 98 :: nat]) \<and>
   [98, 98, 98, 98, 98, 98, 98] \<in> set (space_separated_words
      [97, 97, 32, 98, 98, 98, 98, 98, 98, 98, 32, 99]) \<and>
   py_words (join_with SPACE (format_message_text short_message 4)) =
     py_words [97, 97, 32, 98, 98, 98, 98, 98, 98, 98, 32, 99]"
proof -
  have b: "message_body short_message = Some [97, 97, 32, 98, 98, 98, 98, 98, 98, 98, 32, 99]"
    by (simp add: short_message_def)
  show ?thesis
    using b short_message_lines
      wrapped_lines_and_words [of short_message "[97, 97, 32, 98, 98, 98, 98, 98, 98, 98, 32, 99]" 4]
    by simp
qed

text \<open>
  Claim C8 as stated fails for the empty body: \<open>format_message_text\<close> replaces it by
  the placeholder, whose two words are not the (empty) word sequence of the input.
\<close>

theorem empty_body_shows_placeholder:
  "format_message_text empty_message 40 = [empty_message_placeholder] \<and>
   py_words (join_with SPACE (format_message_text empty_message 40)) =
     [[91, 1055, 1091, 1089, 1090, 1086, 1077], [1089, 1086, 1086, 1073, 1097, 1077, 1085, 1080, 1077, 93]] \<and>
   py_words [] = []"
proof -
  have f: "format_message_text empty_message 40 = [empty_message_placeholder]"
    by (simp add: format_message_text_def displayed_text_def empty_message_def wrap_line_def
        py_split_def NEWLINE_def empty_message_placeholder_def)
  have w: "py_words empty_message_placeholder =
     [[91, 1055, 1091, 1089, 1090, 1086, 1077], [1089, 1086, 1086, 1073, 1097, 1077, 1085, 1080, 1077, 93]]"
    by (simp add: py_words_def empty_message_placeholder_def is_space_def)
  show ?thesis using f w by (simp add: py_words_Nil)
qed

section \<open>Verification: the message viewport\<close>

lemma walk_back_absorbed:
  "i \<le> length hs \<Longrightarrow>
   walk_back hs H i cur st =
     (if absorbed (rev (take i hs)) H cur = 0 then st else i - absorbed (rev (take i hs)) H cur)"
proof (induction i arbitrary: cur st)
  case 0
  then show ?case by simp
next
  case (Suc i)
  then have lt: "i < length hs" by simp
  have tk: "rev (take (Suc i) hs) = hs ! i # rev (take i hs)"
    using lt by (simp add: take_Suc_conv_app_nth)
  show ?case
  proof (cases "cur + hs ! i \<le> H")
    case True
    with Suc.IH [of "cur + hs ! i" i] lt tk show ?thesis by simp
  next
    case False
    with tk show ?thesis by simp
  qed
qed

lemma absorbed_all:
  "\<forall>h\<in>set xs. 0 \<le> h \<Longrightarrow> cum + sum_list xs \<le> H \<Longrightarrow> absorbed xs H cum = length xs"
proof (induction xs arbitrary: cum)
  case Nil
  then show ?case by simp
next
  case (Cons x xs)
  have "0 \<le> sum_list xs" using Cons.prems(1) by (simp add: sum_list_nonneg)
  with Cons show ?case by (simp add: add.assoc)
qed

lemma draw_loop_ge:
  "\<forall>h\<in>set xs. 0 \<le> h \<Longrightarrow> n \<le> length xs \<Longrightarrow> y + sum_list (take n xs) \<le> height - 2 \<Longrightarrow>
   n \<le> draw_loop height xs y"
proof (induction xs arbitrary: n y)
  case Nil
  then show ?case by simp
next
  case (Cons x xs)
  show ?case
  proof (cases n)
    case 0
    then show ?thesis by simp
  next
    case (Suc m)
    have nn: "0 \<le> sum_list (take m xs)"
      using Cons.prems(1) by (auto intro!: sum_list_nonneg dest: in_set_takeD)
    have fit: "y + x \<le> height - 2" using Cons.prems(3) Suc nn by simp
    have "m \<le> draw_loop height xs (y + x)"
      using Cons.IH [of m "y + x"] Cons.prems Suc by (simp add: add.assoc)
    with fit Suc show ?thesis by simp
  qed
qed

lemma draw_loop_fits:
  "0 < draw_loop height xs y \<Longrightarrow> y + sum_list (take (draw_loop height xs y) xs) \<le> height - 2"
proof (induction xs arbitrary: y)
  case Nil
  then show ?case by simp
next
  case (Cons x xs)
  show ?case
  proof (cases "y + x > height - 2")
    case True
    with Cons.prems show ?thesis by simp
  next
    case False
    show ?thesis
    proof (cases "draw_loop height xs (y + x) = 0")
      case True
      with False show ?thesis by simp
    next
      case False2: False
      with Cons.IH [of "y + x"] False show ?thesis by (simp add: add.assoc)
    qed
  qed
qed

lemma draw_loop_le: "draw_loop height xs y \<le> length xs"
  by (induction xs arbitrary: y) auto

lemma nth_le_sum_list:
  "\<forall>h\<in>set xs. (0::int) \<le> h \<Longrightarrow> i < length xs \<Longrightarrow> xs ! i \<le> sum_list xs"
proof (induction xs arbitrary: i)
  case Nil
  then show ?case by simp
next
  case (Cons x xs)
  have nn: "0 \<le> sum_list xs" using Cons.prems(1) by (simp add: sum_list_nonneg)
  show ?case
  proof (cases i)
    case 0
    with nn show ?thesis by simp
  next
    case (Suc j)
    with Cons.IH [of j] Cons.prems show ?thesis by simp
  qed
qed


lemma compute_start_index_spec:
  "S < length hs \<Longrightarrow> compute_start_index hs H S = Inr (viewport_start_spec hs H S)"
  by (simp add: compute_start_index_def viewport_start_spec_def Let_def walk_back_absorbed)

text \<open>
  Claim C4. For a selected index inside the list, the start index \<open>render_chat\<close>
  computes is the one of the three-case algorithm of the specification
  (\<open>viewport_start_spec\<close>: everything fits, start 0; the items up to and including the
  selected one overflow, start at the selected one; otherwise walk backward absorbing
  items while the cumulative height stays within H). In the scenario of ten items where
  items 0--4 take H - 1 rows and the selected item 5 needs three rows more than remain,
  the start index is 5.
\<close>

theorem render_chat_start_three_cases:
  assumes "S < length hs"
  shows "compute_start_index hs H S = Inr (viewport_start_spec hs H S) \<and>
         (length hs = 10 \<and> S = 5 \<and> (\<forall>h\<in>set hs. 0 \<le> h) \<and>
          sum_list (take 5 hs) = H - 1 \<and> hs ! 5 = (H - sum_list (take 5 hs)) + 3
          \<longrightarrow> compute_start_index hs H S = Inr 5)"
proof (intro conjI impI)
  show "compute_start_index hs H S = Inr (viewport_start_spec hs H S)"
    using assms by (rule compute_start_index_spec)
next
  assume a: "length hs = 10 \<and> S = 5 \<and> (\<forall>h\<in>set hs. 0 \<le> h) \<and>
          sum_list (take 5 hs) = H - 1 \<and> hs ! 5 = (H - sum_list (take 5 hs)) + 3"
  then have len: "5 < length hs" and S: "S = 5" and nn: "\<forall>h\<in>set hs. 0 \<le> h"
    and before: "sum_list (take 5 hs) = H - 1" and h5: "hs ! 5 = 4"
    by simp_all
  have split: "hs = take 5 hs @ hs ! 5 # drop 6 hs"
    using len id_take_nth_drop [of 5 hs] by simp
  have "0 \<le> sum_list (drop 6 hs)"
    using nn by (auto intro!: sum_list_nonneg dest: in_set_dropD)
  moreover have "sum_list hs = sum_list (take 5 hs) + hs ! 5 + sum_list (drop 6 hs)"
    by (subst split) simp
  ultimately have total: "\<not> sum_list hs \<le> H" using before h5 by simp
  show "compute_start_index hs H S = Inr 5"
    using total len before h5 S by (simp add: compute_start_index_def)
qed

text \<open>
  The scenario at ten concrete heights and H = 11.
\<close>

theorem render_chat_start_three_cases_witness:
  "5 < length [2, 2, 2, 2, 2, 4, 2, 2, 2, 2 :: int] \<and>
   length [2, 2, 2, 2, 2, 4, 2, 2, 2, 2 :: int] = 10 \<and>
   list_all (\<lambda>h. 0 \<le> h) [2, 2, 2, 2, 2, 4, 2, 2, 2, 2 :: int] \<and>
   sum_list (take 5 [2, 2, 2, 2, 2, 4, 2, 2, 2, 2 :: int]) = 11 - 1 \<and>
   compute_start_index [2, 2, 2, 2, 2, 4, 2, 2, 2, 2] 11 5 = Inr 5 \<and>
   viewport_start_spec [2, 2, 2, 2, 2, 4, 2, 2, 2, 2] 11 5 = 5"
  using render_chat_start_three_cases [of 5 "[2, 2, 2, 2, 2, 4, 2, 2, 2, 2]" 11]
  by auto

text \<open>
  Claim C2, as amended. For non-negative heights and a selected index inside the list,
  whenever the selected item is not taller than the content height \<open>height - 4\<close>,
  \<open>render_chat\<close> reports a layout whose rendered range contains the selected item,
  and the items of that range, the selected one among them, fit in the content height
  together: the selected item is drawn in full.
\<close>

theorem render_chat_selected_drawn_when_fits:
  assumes nn: "\<forall>h\<in>set hs. 0 \<le> h" and S: "S < length hs"
    and small: "hs ! S \<le> height - 4"
  shows "\<exists>start drawn. chat_layout height hs S = Inr (start, drawn) \<and>
           start \<le> S \<and> S < start + drawn \<and>
           sum_list (take drawn (drop start hs)) \<le> height - 4"
proof -
  define H where "H = height - 4"
  obtain start where st: "compute_start_index hs H S = Inr start"
    using compute_start_index_spec [OF S] by blast
  define drawn where "drawn = draw_loop height (drop start hs) 2"
  have lay: "chat_layout height hs S = Inr (start, drawn)"
    using st by (simp add: chat_layout_def H_def drawn_def)
  have fits: "0 < drawn \<Longrightarrow> sum_list (take drawn (drop start hs)) \<le> H"
    using draw_loop_fits [of height "drop start hs" 2] by (simp add: drawn_def H_def)
  have rng: "start \<le> S \<and> S < start + drawn"
  proof (cases "sum_list hs \<le> H")
    case True
    then have s0: "start = 0" using st by (simp add: compute_start_index_def)
    have "length hs \<le> draw_loop height hs 2"
      using draw_loop_ge [of hs "length hs" 2 height] nn True by (simp add: H_def)
    then show ?thesis using s0 S by (simp add: drawn_def)
  next
    case total: False
    show ?thesis
    proof (cases "sum_list (take S hs) + hs ! S > H")
      case True
      then have sS: "start = S" using st total S by (simp add: compute_start_index_def)
      have d: "drop S hs = hs ! S # drop (Suc S) hs"
        using S by (simp add: Cons_nth_drop_Suc)
      have "1 \<le> draw_loop height (drop S hs) 2"
        using small by (subst d) (simp add: H_def)
      then show ?thesis using sS by (simp add: drawn_def)
    next
      case False
      have nnt: "\<forall>h\<in>set (rev (take S hs)). 0 \<le> h"
        using nn by (auto dest: in_set_takeD)
      have "absorbed (rev (take S hs)) H (hs ! S) = length (rev (take S hs))"
        using absorbed_all [OF nnt, of "hs ! S" H] False by simp
      then have s0: "start = 0"
        using st total S False compute_start_index_spec [OF S, of H]
        by (simp add: viewport_start_spec_def)
      have "sum_list (take (Suc S) hs) = sum_list (take S hs) + hs ! S"
        using S by (simp add: take_Suc_conv_app_nth)
      then have "Suc S \<le> draw_loop height hs 2"
        using draw_loop_ge [of hs "Suc S" 2 height] nn S False by (simp add: H_def)
      then show ?thesis using s0 by (simp add: drawn_def)
    qed
  qed
  then have "0 < drawn" by simp
  then show ?thesis
    using lay rng fits unfolding H_def by blast
qed

text \<open>
  Four messages on a terminal of nine rows, the third selected.
\<close>

theorem render_chat_selected_drawn_when_fits_witness:
  "list_all (\<lambda>h. 0 \<le> h) [2, 2, 4, 3 :: int] \<and> 2 < length [2, 2, 4, 3 :: int] \<and>
   [2, 2, 4, 3 :: int] ! 2 \<le> 9 - 4 \<and> chat_layout 9 [2, 2, 4, 3] 2 = Inr (2, 1)"
proof -
  have "chat_layout 9 [2, 2, 4, 3] 2 = Inr (2, 1)"
    by (simp add: chat_layout_def compute_start_index_def)
  then show ?thesis
    using render_chat_selected_drawn_when_fits [of "[2, 2, 4, 3]" 2 9] by simp
qed

text \<open>
  Claim C2 as stated fails: on a terminal of 24 rows (content height 20) a selected
  message of 25 rows becomes the start index, the drawing loop breaks before it, and
  the rendered range is empty.
\<close>

theorem render_chat_oversize_selected_not_drawn:
  "chat_layout 24 [3, 25, 3] 1 = Inr (1, 0)"
  by (simp add: chat_layout_def compute_start_index_def)

text \<open>
  The heights \<open>render_chat\<close> computes are at least 2, so the layout theorems apply to
  every message list.
\<close>

lemma message_height_ge_2: "2 \<le> message_height media_handler width msg"
  by (simp add: message_height_def)

lemma render_chat_layout:
  "messages \<noteq> [] \<Longrightarrow>
   render_chat height width media_handler messages selected_index =
     chat_layout height (map (message_height media_handler width) messages) selected_index \<and>
   (\<forall>h \<in> set (map (message_height media_handler width) messages). 0 \<le> h)"
proof (intro conjI ballI)
  assume "messages \<noteq> []"
  then show "render_chat height width media_handler messages selected_index =
     chat_layout height (map (message_height media_handler width) messages) selected_index"
    by (simp add: render_chat_def)
next
  fix h
  assume "h \<in> set (map (message_height media_handler width) messages)"
  then obtain msg where "h = message_height media_handler width msg" by auto
  then show "0 \<le> h"
    using message_height_ge_2 [of media_handler width msg] by simp
qed

section \<open>Verification: the conversation viewport\<close>

lemma dialogs_drawn_full:
  assumes "1 \<le> height - 3" "height - 3 < int n" "0 \<le> sel" "sel < int n"
  shows "dialogs_drawn height n sel =
           map (\<lambda>i. dialogs_start_index height n sel + int i) [0 ..< nat (height - 3)]"
proof -
  have "\<forall>x\<in>set (map (\<lambda>i. dialogs_start_index height n sel + int i) [0 ..< nat (height - 3)]).
          x < int n"
    using assms by (auto simp: dialogs_start_index_def Let_def)
  then show ?thesis
    using assms by (simp add: dialogs_drawn_def Let_def min_def takeWhile_eq_all_conv)
qed

text \<open>
  Claim C1, as amended. When the conversation list does not fit (more items than visible
  lines, at least one visible line) and the selected index is inside the list,
  \<open>render_dialogs\<close> starts at \<open>max(0, min(S - H div 2, N - H))\<close>: the selection
  is centred, not placed as low as possible. The selected row is on screen and the
  window is full.
\<close>

theorem render_dialogs_centres_selection:
  assumes "1 \<le> height - 3" "height - 3 < int n" "0 \<le> sel" "sel < int n"
  shows "dialogs_start_index height n sel =
           max 0 (min (sel - (height - 3) div 2) (int n - (height - 3))) \<and>
         dialogs_start_index height n sel \<le> sel \<and>
         sel < dialogs_start_index height n sel + (height - 3) \<and>
         dialogs_start_index height n sel + (height - 3) \<le> int n \<and>
         sel \<in> set (dialogs_drawn height n sel) \<and>
         length (dialogs_drawn height n sel) = nat (height - 3)"
proof -
  let ?st = "dialogs_start_index height n sel"
  have b: "?st \<le> sel \<and> sel < ?st + (height - 3) \<and> ?st + (height - 3) \<le> int n \<and> 0 \<le> ?st"
    using assms by (auto simp: dialogs_start_index_def Let_def)
  have "sel = ?st + int (nat (sel - ?st))" using b by simp
  moreover have "nat (sel - ?st) < nat (height - 3)" using b by simp
  ultimately have "sel \<in> (\<lambda>i. ?st + int i) ` {0 ..< nat (height - 3)}"
    by (metis atLeastLessThan_iff imageI zero_le)
  then show ?thesis
    using b dialogs_drawn_full [OF assms] by (simp add: dialogs_start_index_def Let_def)
qed

text \<open>
  Ten conversations on a terminal of seven rows, the sixth selected.
\<close>

theorem render_dialogs_centres_selection_witness:
  "(1::int) \<le> 7 - 3 \<and> (7::int) - 3 < int 10 \<and> (0::int) \<le> 5 \<and> (5::int) < int 10 \<and>
   dialogs_start_index 7 10 5 = 3 \<and> dialogs_drawn 7 10 5 = [3, 4, 5, 6]"
proof -
  have "dialogs_drawn 7 10 5 = [3, 4, 5, 6]"
    by (simp add: dialogs_drawn_def dialogs_start_index_def upt_rec)
  then show ?thesis
    using render_dialogs_centres_selection [of 7 10 5] by simp
qed

text \<open>
  Claim C1 as stated fails: for ten unit-height items, four visible lines and selected
  index 5, \<open>render_dialogs\<close> starts at 3, the formula of the claim gives 2, and the
  computation of the message list gives 5.
\<close>

theorem render_dialogs_start_differs_from_viewport:
  "dialogs_start_index 7 10 5 = 3 \<and> max 0 (5 - ((7 - 3) - 1)) = (2::int) \<and>
   compute_start_index [1, 1, 1, 1, 1, 1, 1, 1, 1, 1] (7 - 3) 5 = Inr 5"
  by (simp add: dialogs_start_index_def compute_start_index_def)

end
